theory Spec2Isabelle
  imports Main "HOL-Library.Word"
begin

section \<open>JavaScript strings\<close>

text \<open>
  A JavaScript string is a sequence of 16-bit UTF-16 code units. Nothing forces the
  units to be well-formed UTF-16: a lone surrogate half is an ordinary element of
  the sequence.
\<close>

type_synonym code_unit = "16 word"
type_synonym jsstring = "code_unit list"

text \<open>ASCII literals of the source, as code units.\<close>

definition js :: "string \<Rightarrow> jsstring" where
  "js = map (\<lambda>c. of_nat (of_char c))"

text \<open>The backslash and the double quote cannot be typed inside a literal.\<close>

definition BSL :: char where
  "BSL = CHR 0x5C"

definition DQ :: char where
  "DQ = CHR 0x22"

datatype error = TypeError

definition is_high_surrogate :: "code_unit \<Rightarrow> bool" where
  "is_high_surrogate u \<longleftrightarrow> 0xD800 \<le> u \<and> u \<le> 0xDBFF"

definition is_low_surrogate :: "code_unit \<Rightarrow> bool" where
  "is_low_surrogate u \<longleftrightarrow> 0xDC00 \<le> u \<and> u \<le> 0xDFFF"

text \<open>
  \<open>Array.from(s)\<close> and \<open>for (const character of s)\<close> both run the string iterator:
  a high surrogate directly followed by a low surrogate is one element of two code
  units, every other code unit (a lone surrogate too) is an element of its own.
\<close>

fun Array_from :: "jsstring \<Rightarrow> jsstring list" where
  "Array_from [] = []"
| "Array_from [u] = [[u]]"
| "Array_from (u # v # rest) =
     (if is_high_surrogate u \<and> is_low_surrogate v
      then [u, v] # Array_from rest
      else [u] # Array_from (v # rest))"

text \<open>\<open>asArray[i]\<close>: \<open>undefined\<close> out of range, which is \<open>None\<close> here.\<close>

definition array_get :: "'a list \<Rightarrow> nat \<Rightarrow> 'a option" where
  "array_get xs i = (if i < length xs then Some (xs ! i) else None)"

text \<open>\<open>char.charCodeAt(0)\<close>: \<open>NaN\<close> on the empty string, which is \<open>None\<close> here.\<close>

fun charCodeAt0 :: "jsstring \<Rightarrow> code_unit option" where
  "charCodeAt0 [] = None"
| "charCodeAt0 (u # rest) = Some u"

text \<open>\<open>character.codePointAt(0)\<close>: \<open>undefined\<close> on the empty string.\<close>

fun codePointAt0 :: "jsstring \<Rightarrow> nat option" where
  "codePointAt0 [] = None"
| "codePointAt0 [u] = Some (unat u)"
| "codePointAt0 (u # v # rest) =
     (if is_high_surrogate u \<and> is_low_surrogate v
      then Some ((unat u - 0xD800) * 0x400 + (unat v - 0xDC00) + 0x10000)
      else Some (unat u))"

text \<open>\<open>n.toString(16)\<close> on a non-negative integer: lowercase digits, no prefix.\<close>

definition hex_digit :: "nat \<Rightarrow> code_unit" where
  "hex_digit d = (if d < 10 then 0x30 + of_nat d else 0x61 + of_nat (d - 10))"

fun toString16 :: "nat \<Rightarrow> jsstring" where
  "toString16 n =
     (if n < 16 then [hex_digit n]
      else toString16 (n div 16) @ [hex_digit (n mod 16)])"

declare toString16.simps [simp del]

text \<open>\<open>str.padStart(targetLength, pad)\<close> for a pad string of one code unit.\<close>

definition padStart :: "nat \<Rightarrow> code_unit \<Rightarrow> jsstring \<Rightarrow> jsstring" where
  "padStart targetLength pad str = replicate (targetLength - length str) pad @ str"

section \<open>The element quoter\<close>

definition isUnprintableAscii :: "jsstring \<Rightarrow> bool" where
  "isUnprintableAscii char =
     (case charCodeAt0 char of
        None \<Rightarrow> False
      | Some charCode \<Rightarrow> charCode < 32 \<or> charCode = 127)"

record scan_state =
  requireSlashQuote :: bool
  requireBraceQuote :: bool
  braceCount :: nat

text \<open>
  The body of the classification loop of \<open>tclQuote\<close>, up to the test of
  \<open>requireSlashQuote\<close>. It returns the loop index as the body leaves it (the
  backslash case increments it) and the updated flags.
\<close>

definition scan_step :: "jsstring \<Rightarrow> nat \<Rightarrow> nat \<Rightarrow> scan_state \<Rightarrow> nat \<times> scan_state" where
  "scan_step character i inputLength st =
     (if length character > 1 then (i, st)
      else if isUnprintableAscii character then (i, st\<lparr>requireSlashQuote := True\<rparr>)
      else if character = js '' '' \<or> character = js [DQ] then
        (i, st\<lparr>requireBraceQuote := True\<rparr>)
      else if character = js [BSL] then
        (if i + 1 = inputLength then (i, st\<lparr>requireSlashQuote := True\<rparr>)
         else (i + 1, st\<lparr>requireBraceQuote := True\<rparr>))
      else if character = js ''{'' then
        (i, st\<lparr>requireBraceQuote := True, braceCount := braceCount st + 1\<rparr>)
      else if character = js ''}'' then
        (if braceCount st \<noteq> 0
         then (i, st\<lparr>requireBraceQuote := True, braceCount := braceCount st - 1\<rparr>)
         else (i, st\<lparr>requireBraceQuote := True, requireSlashQuote := True\<rparr>))
      else (i, st))"

text \<open>
  The loop \<open>for (let i = 0; i < inputLength; i++)\<close>. Reading \<open>character.length\<close>
  of an \<open>undefined\<close> element would throw a TypeError.
\<close>

function scan_loop :: "jsstring list \<Rightarrow> nat \<Rightarrow> scan_state \<Rightarrow> error + scan_state" where
  "scan_loop asArray i st =
     (if i < length asArray then
        (case array_get asArray i of
           None \<Rightarrow> Inl TypeError
         | Some character \<Rightarrow>
             (case scan_step character i (length asArray) st of
                (i', st') \<Rightarrow>
                  if requireSlashQuote st' then Inr st'
                  else scan_loop asArray (i' + 1) st'))
      else Inr st)"
  by pat_completeness auto

termination
proof (relation "measure (\<lambda>(asArray, i, st). length asArray - i)")
  show "wf (measure (\<lambda>(asArray :: jsstring list, i, st :: scan_state). length asArray - i))"
    by simp
next
  fix asArray :: "jsstring list" and i i' :: nat and st st' :: scan_state
    and character :: jsstring
  assume less: "i < length asArray"
    and "array_get asArray i = Some character"
    and step: "(i', st') = scan_step character i (length asArray) st"
    and "\<not> requireSlashQuote st'"
  from step have "i \<le> i'"
    by (auto simp: scan_step_def split: if_splits)
  with less
  show "((asArray, i' + 1, st'), (asArray, i, st))
          \<in> measure (\<lambda>(asArray, i, st). length asArray - i)"
    by simp
qed

declare scan_loop.simps [simp del]

text \<open>What the backslash-escaping pass appends for one element of the iteration.\<close>

definition slash_char :: "jsstring \<Rightarrow> jsstring" where
  "slash_char character =
     (if character = [0x08] then js [BSL, CHR ''b'']
      else if character = [0x0C] then js [BSL, CHR ''f'']
      else if character = [0x0A] then js [BSL, CHR ''n'']
      else if character = [0x0D] then js [BSL, CHR ''r'']
      else if character = [0x09] then js [BSL, CHR ''t'']
      else if character = [0x0B] then js [BSL, CHR ''v'']
      else if character = js '' '' \<or> character = js [DQ] \<or> character = js [BSL]
              \<or> character = js ''{'' \<or> character = js ''}''
        then js [BSL] @ character
      else if isUnprintableAscii character then
        js [BSL, CHR ''x''] @
          (case codePointAt0 character of
             None \<Rightarrow> js ''undefined''
           | Some cp \<Rightarrow> padStart 2 0x30 (toString16 cp))
      else character)"

fun slash_loop :: "jsstring list \<Rightarrow> jsstring \<Rightarrow> jsstring" where
  "slash_loop [] result = result"
| "slash_loop (character # rest) result = slash_loop rest (result @ slash_char character)"

definition slash_quote :: "jsstring \<Rightarrow> jsstring" where
  "slash_quote s = slash_loop (Array_from s) []"

definition brace_quote :: "jsstring \<Rightarrow> jsstring" where
  "brace_quote s = js ''{'' @ s @ js ''}''"

definition scan_init :: scan_state where
  "scan_init = \<lparr>requireSlashQuote = False, requireBraceQuote = False, braceCount = 0\<rparr>"

definition tclQuote :: "jsstring \<Rightarrow> error + jsstring" where
  "tclQuote s =
     (if s = [] then Inr (js ''{}'')
      else
        (case scan_loop (Array_from s) 0 scan_init of
           Inl e \<Rightarrow> Inl e
         | Inr st \<Rightarrow>
             (let st = (if braceCount st \<noteq> 0 then st\<lparr>requireSlashQuote := True\<rparr> else st)
              in if requireSlashQuote st then Inr (slash_quote s)
                 else if requireBraceQuote st then Inr (brace_quote s)
                 else Inr s)))"

section \<open>The list encoder\<close>

text \<open>
  \<open>TclListable = string | number | boolean | Iterable<TclListable>\<close>. The numbers
  are those of the host, of type \<open>'n\<close> here; their conversion \<open>toString()\<close> belongs
  to the host too and is a parameter of the encoder.
\<close>

datatype 'n TclListable =
    Str jsstring
  | Num 'n
  | Bool bool
  | Iter "'n TclListable list"

fun encodeTclListElement :: "('n \<Rightarrow> jsstring) \<Rightarrow> 'n TclListable \<Rightarrow> error + jsstring"
  and tclList_loop :: "('n \<Rightarrow> jsstring) \<Rightarrow> 'n TclListable list \<Rightarrow> jsstring \<Rightarrow> error + jsstring"
where
  "encodeTclListElement toString (Str s) = tclQuote s"
| "encodeTclListElement toString (Num n) = Inr (toString n)"
| "encodeTclListElement toString (Bool b) = (if b then Inr (js ''1'') else Inr (js ''0''))"
| "encodeTclListElement toString (Iter xs) =
     (case tclList_loop toString xs [] of
        Inl e \<Rightarrow> Inl e
      | Inr inner \<Rightarrow> tclQuote inner)"
| "tclList_loop toString [] result = Inr result"
| "tclList_loop toString (item # rest) result =
     (let result = (if result \<noteq> [] then result @ js '' '' else result)
      in case encodeTclListElement toString item of
           Inl e \<Rightarrow> Inl e
         | Inr element \<Rightarrow> tclList_loop toString rest (result @ element))"

definition tclList :: "('n \<Rightarrow> jsstring) \<Rightarrow> 'n TclListable list \<Rightarrow> error + jsstring" where
  "tclList toString list = tclList_loop toString list []"

text \<open>
  The conversion of the host on the safe integers, the numbers that are integers of
  magnitude at most \<open>2\<^sup>5\<^sup>3 - 1\<close>: their exact decimal digits, with a minus sign for a
  negative number. Beyond that range the host rounds to the shortest digits that
  read back as the same number, and \<open>int_toString\<close> is not its conversion.
\<close>

fun nat_toString :: "nat \<Rightarrow> jsstring" where
  "nat_toString n =
     (if n < 10 then [0x30 + of_nat n]
      else nat_toString (n div 10) @ [0x30 + of_nat (n mod 10)])"

declare nat_toString.simps [simp del]

definition int_toString :: "int \<Rightarrow> jsstring" where
  "int_toString n = (if n < 0 then js ''-'' @ nat_toString (nat (- n)) else nat_toString (nat n))"

section \<open>The self-test on all ASCII characters\<close>

definition initializedArray :: "nat \<Rightarrow> (nat \<Rightarrow> 'a) \<Rightarrow> 'a list" where
  "initializedArray count callback = map callback [0..<count]"

text \<open>\<open>String.fromCharCode(...codes)\<close>: each number is taken modulo \<open>2\<^sup>1\<^sup>6\<close>.\<close>

definition fromCharCode :: "nat list \<Rightarrow> jsstring" where
  "fromCharCode codes = map of_nat codes"

definition all_ascii :: jsstring where
  "all_ascii = fromCharCode (initializedArray 128 (\<lambda>i. i))"

text \<open>The \<open>expectedResult\<close> of the test case "all ASCII chars" of \<open>tclUnitTest\<close>.\<close>

definition all_ascii_expected :: jsstring where
  "all_ascii_expected = js
     (BSL # ''x00'' @ BSL # ''x01'' @ BSL # ''x02'' @ BSL # ''x03'' @ BSL # ''x04'' @
      BSL # ''x05'' @ BSL # ''x06'' @ BSL # ''x07'' @ BSL # ''b'' @ BSL # ''t'' @
      BSL # ''n'' @ BSL # ''v'' @ BSL # ''f'' @ BSL # ''r'' @ BSL # ''x0e'' @
      BSL # ''x0f'' @ BSL # ''x10'' @ BSL # ''x11'' @ BSL # ''x12'' @ BSL # ''x13'' @
      BSL # ''x14'' @ BSL # ''x15'' @ BSL # ''x16'' @ BSL # ''x17'' @ BSL # ''x18'' @
      BSL # ''x19'' @ BSL # ''x1a'' @ BSL # ''x1b'' @ BSL # ''x1c'' @ BSL # ''x1d'' @
      BSL # ''x1e'' @ BSL # ''x1f'' @ BSL # '' !'' @ BSL # DQ # ''#$%&'' @
      CHR 0x27 # ''()*+,-./0123456789:;<=>?@ABCDEFGHIJKLMNOPQRSTUVWXYZ['' @
      BSL # BSL # '']^_`abcdefghijklmnopqrstuvwxyz'' @ BSL # ''{|'' @ BSL # ''}~'' @
      BSL # ''x7f'')"

section \<open>The vocabulary of the specification\<close>

text \<open>A control character: a code below 32, or 127.\<close>

definition control_unit :: "code_unit \<Rightarrow> bool" where
  "control_unit u \<longleftrightarrow> u < 32 \<or> u = 127"

text \<open>
  Plain content: no control character, space, double quote, backslash or brace.
  Every code unit from 128 on is plain, the surrogate halves among them.
\<close>

definition plain_unit :: "code_unit \<Rightarrow> bool" where
  "plain_unit u \<longleftrightarrow>
     \<not> control_unit u \<and> u \<noteq> 0x20 \<and> u \<noteq> 0x22 \<and> u \<noteq> 0x5C \<and> u \<noteq> 0x7B \<and> u \<noteq> 0x7D"

text \<open>
  The braces that no backslash protects are unbalanced: walking the code points from
  a given depth, with the code point after each backslash skipped, a close brace is
  met at depth zero or the depth is not zero at the end.
\<close>

function unbalanced :: "jsstring list \<Rightarrow> nat \<Rightarrow> bool" where
  "unbalanced [] depth \<longleftrightarrow> depth \<noteq> 0"
| "unbalanced (c # cs) depth \<longleftrightarrow>
     (if c = js [BSL] then unbalanced (drop 1 cs) depth
      else if c = js ''{'' then unbalanced cs (depth + 1)
      else if c = js ''}'' then depth = 0 \<or> unbalanced cs (depth - 1)
      else unbalanced cs depth)"
  by pat_completeness auto

termination
  by (relation "measure (\<lambda>(cs, depth). length cs)") simp_all

text \<open>Content free of control characters, space, double quote and backslash.\<close>

definition brace_or_plain_unit :: "code_unit \<Rightarrow> bool" where
  "brace_or_plain_unit u \<longleftrightarrow> plain_unit u \<or> u = 0x7B \<or> u = 0x7D"

text \<open>
  The escape table of the specification for an ASCII code: the named escapes, two
  lowercase hexadecimal digits after \<open>\x\<close> for the other control characters, one
  backslash before space, double quote, backslash and the braces, and every other
  character as it is.
\<close>

definition hex_pair :: "nat \<Rightarrow> string" where
  "hex_pair n = [''0123456789abcdef'' ! (n div 16), ''0123456789abcdef'' ! (n mod 16)]"

definition reference_escape :: "nat \<Rightarrow> string" where
  "reference_escape n =
     (if n = 8 then [BSL, CHR ''b'']
      else if n = 9 then [BSL, CHR ''t'']
      else if n = 10 then [BSL, CHR ''n'']
      else if n = 11 then [BSL, CHR ''v'']
      else if n = 12 then [BSL, CHR ''f'']
      else if n = 13 then [BSL, CHR ''r'']
      else if n < 32 \<or> n = 127 then BSL # CHR ''x'' # hex_pair n
      else if n = 0x20 \<or> n = 0x22 \<or> n = 0x5C \<or> n = 0x7B \<or> n = 0x7D then [BSL, char_of n]
      else [char_of n])"

text \<open>\<open>elements.join(separator)\<close>: the separator stands between two neighbours only.\<close>

fun join_with :: "jsstring \<Rightarrow> jsstring list \<Rightarrow> jsstring" where
  "join_with separator [] = []"
| "join_with separator [element] = element"
| "join_with separator (element # next # rest) =
     element @ separator @ join_with separator (next # rest)"

section \<open>Auxiliary notions\<close>

text \<open>An element of plain content: a surrogate pair, or one plain code unit.\<close>

definition plain_char :: "jsstring \<Rightarrow> bool" where
  "plain_char c \<longleftrightarrow> 1 < length c \<or> (\<exists>u. c = [u] \<and> plain_unit u)"

text \<open>The separator rule of the loop of \<open>tclList\<close>, on the element strings.\<close>

fun append_elements :: "jsstring \<Rightarrow> jsstring list \<Rightarrow> jsstring" where
  "append_elements result [] = result"
| "append_elements result (element # rest) =
     append_elements ((if result \<noteq> [] then result @ js '' '' else result) @ element) rest"

definition is_surrogate :: "code_unit \<Rightarrow> bool" where
  "is_surrogate u \<longleftrightarrow> is_high_surrogate u \<or> is_low_surrogate u"

section \<open>Evaluation of literals\<close>

lemma js_Nil [simp]: "js [] = []"
  by (simp add: js_def)

lemma js_Cons [simp]: "js (c # cs) = of_nat (of_char c) # js cs"
  by (simp add: js_def)

lemma BSL_code [simp]: "of_char BSL = (0x5C :: nat)"
  by (simp add: BSL_def)

lemma DQ_code [simp]: "of_char DQ = (0x22 :: nat)"
  by (simp add: DQ_def)

lemma not_surrogate_ascii:
  "u < 0x80 \<Longrightarrow> \<not> is_high_surrogate u" "u < 0x80 \<Longrightarrow> \<not> is_low_surrogate u"
  by (auto simp: is_high_surrogate_def is_low_surrogate_def word_le_nat_alt word_less_nat_alt)

section \<open>The string iterator\<close>

lemma Array_from_elem:
  "c \<in> set (Array_from s) \<Longrightarrow>
   (\<exists>u \<in> set s. c = [u]) \<or> (\<exists>h l. c = [h, l] \<and> is_high_surrogate h \<and> is_low_surrogate l)"
  by (induction s arbitrary: c rule: Array_from.induct) (auto split: if_splits)

lemma Array_from_Nil_iff: "Array_from s = [] \<longleftrightarrow> s = []"
  by (cases s rule: Array_from.cases) auto

lemma Array_from_single:
  "u \<in> set s \<Longrightarrow> \<not> is_high_surrogate u \<Longrightarrow> \<not> is_low_surrogate u \<Longrightarrow> [u] \<in> set (Array_from s)"
  by (induction s rule: Array_from.induct) auto

lemma Array_from_append:
  "q = [] \<or> \<not> is_low_surrogate (hd q) \<Longrightarrow> Array_from (p @ q) = Array_from p @ Array_from q"
proof (induction p rule: Array_from.induct)
  case 1
  show ?case by simp
next
  case (2 u)
  then show ?case by (cases q) auto
next
  case (3 u v rest)
  then show ?case by simp
qed

lemma Array_from_no_high:
  "\<forall>u \<in> set s. \<not> is_high_surrogate u \<Longrightarrow> Array_from s = map (\<lambda>u. [u]) s"
  by (induction s rule: Array_from.induct) simp_all

lemma Array_from_last:
  "p \<noteq> [] \<Longrightarrow> last (Array_from p) = [last p] \<or> (\<exists>h. last (Array_from p) = [h, last p])"
  by (induction p rule: Array_from.induct) (auto simp: Array_from_Nil_iff)

section \<open>One round of the classification loop\<close>

lemma scan_step_index: "scan_step character i n st = (i', st') \<Longrightarrow> i \<le> i'"
  by (auto simp: scan_step_def split: if_splits)

lemma scan_step_cases:
  "scan_step c i n st = (i', st') \<Longrightarrow> i' = i \<or> (c = [0x5C] \<and> i' = i + 1)"
  by (auto simp: scan_step_def split: if_splits)

lemma scan_step_pair: "1 < length c \<Longrightarrow> scan_step c i n st = (i, st)"
  by (simp add: scan_step_def)

lemma scan_step_plain: "plain_unit u \<Longrightarrow> scan_step [u] i n st = (i, st)"
  by (simp add: scan_step_def plain_unit_def control_unit_def isUnprintableAscii_def)

lemma scan_step_space: "scan_step [0x20] i n st = (i, st\<lparr>requireBraceQuote := True\<rparr>)"
  by (simp add: scan_step_def isUnprintableAscii_def)

lemma scan_step_backslash:
  "scan_step [0x5C] i n st =
     (if i + 1 = n then (i, st\<lparr>requireSlashQuote := True\<rparr>)
      else (i + 1, st\<lparr>requireBraceQuote := True\<rparr>))"
  by (simp add: scan_step_def isUnprintableAscii_def)

lemma scan_step_plain_char: "plain_char c \<Longrightarrow> scan_step c i n st = (i, st)"
  by (auto simp: plain_char_def scan_step_plain scan_step_pair)

lemma plain_char_not_space: "plain_char c \<Longrightarrow> c \<noteq> [0x20]"
  by (auto simp: plain_char_def plain_unit_def)

lemma Array_from_plain:
  assumes "\<forall>u \<in> set s. u \<noteq> 0x20 \<longrightarrow> plain_unit u"
  shows "\<forall>c \<in> set (Array_from s). plain_char c \<or> c = [0x20]"
proof
  fix c assume "c \<in> set (Array_from s)"
  from Array_from_elem [OF this] assms show "plain_char c \<or> c = [0x20]"
    by (auto simp: plain_char_def)
qed

section \<open>The classification loop\<close>

lemma scan_loop_end: "length asArray \<le> i \<Longrightarrow> scan_loop asArray i st = Inr st"
  by (simp add: scan_loop.simps)

lemma scan_loop_step:
  "i < length asArray \<Longrightarrow>
   scan_loop asArray i st =
     (case scan_step (asArray ! i) i (length asArray) st of
        (i', st') \<Rightarrow> if requireSlashQuote st' then Inr st' else scan_loop asArray (i' + 1) st')"
  by (subst scan_loop.simps) (simp add: array_get_def)

text \<open>The loop never reads outside the array: it always returns its flags.\<close>

lemma scan_loop_total: "\<exists>st'. scan_loop asArray i st = Inr st'"
proof (induction "length asArray - i" arbitrary: i st rule: less_induct)
  case less
  show ?case
  proof (cases "i < length asArray")
    case False
    then show ?thesis by (simp add: scan_loop_end)
  next
    case True
    obtain i' st' where step: "scan_step (asArray ! i) i (length asArray) st = (i', st')"
      by (cases "scan_step (asArray ! i) i (length asArray) st")
    then have "i \<le> i'" by (rule scan_step_index)
    with True have "length asArray - (i' + 1) < length asArray - i" by simp
    from less [OF this] obtain st'' where "scan_loop asArray (i' + 1) st' = Inr st''" by blast
    with True step show ?thesis by (simp add: scan_loop_step)
  qed
qed

text \<open>Over plain content and spaces the loop only records whether it met a space.\<close>

lemma scan_loop_plain_space:
  assumes "\<forall>c \<in> set (drop i asArray). plain_char c \<or> c = [0x20]"
    and "\<not> requireSlashQuote st"
  shows "scan_loop asArray i st =
           Inr (if [0x20] \<in> set (drop i asArray) then st\<lparr>requireBraceQuote := True\<rparr> else st)"
  using assms
proof (induction "length asArray - i" arbitrary: i st rule: less_induct)
  case less
  show ?case
  proof (cases "i < length asArray")
    case False
    then show ?thesis by (simp add: scan_loop_end)
  next
    case True
    then have split: "drop i asArray = asArray ! i # drop (Suc i) asArray"
      by (simp add: Cons_nth_drop_Suc)
    have rest: "\<forall>c \<in> set (drop (Suc i) asArray). plain_char c \<or> c = [0x20]"
      using less.prems(1) split by simp
    from True have smaller: "length asArray - Suc i < length asArray - i" by simp
    from less.prems(1) split have "plain_char (asArray ! i) \<or> asArray ! i = [0x20]" by simp
    then show ?thesis
    proof
      assume plain: "plain_char (asArray ! i)"
      have "scan_loop asArray i st = scan_loop asArray (Suc i) st"
        using True less.prems(2) by (simp add: scan_loop_step scan_step_plain_char [OF plain])
      also have "\<dots> = Inr (if [0x20] \<in> set (drop (Suc i) asArray)
                           then st\<lparr>requireBraceQuote := True\<rparr> else st)"
        by (rule less.hyps [OF smaller rest less.prems(2)])
      finally show ?thesis
        using plain_char_not_space [OF plain] by (simp add: split)
    next
      assume space: "asArray ! i = [0x20]"
      let ?st = "st\<lparr>requireBraceQuote := True\<rparr>"
      have "scan_loop asArray i st = scan_loop asArray (Suc i) ?st"
        using True less.prems(2) by (simp add: scan_loop_step space scan_step_space)
      also have "\<dots> = Inr (if [0x20] \<in> set (drop (Suc i) asArray)
                           then ?st\<lparr>requireBraceQuote := True\<rparr> else ?st)"
        using less.prems(2) by (intro less.hyps [OF smaller rest]) simp
      finally show ?thesis
        by (simp add: split space)
    qed
  qed
qed

text \<open>
  After an array \<open>P\<close> that does not end in a backslash, an odd run of backslashes
  sends the loop to its last backslash, unless the loop has stopped before.
\<close>

lemma scan_loop_odd_tail:
  fixes P :: "jsstring list" and k :: nat
  defines "A \<equiv> P @ replicate (2 * k + 1) [0x5C]"
  assumes last: "P = [] \<or> last P \<noteq> [0x5C]"
    and inv: "i \<le> length P \<or> (\<exists>j\<le>k. i = length P + 2 * j)"
  shows "\<exists>st'. scan_loop A i st = Inr st' \<and> requireSlashQuote st'"
  using inv
proof (induction "length A - i" arbitrary: i st rule: less_induct)
  case less
  have len: "length A = length P + 2 * k + 1" by (simp add: A_def)
  from less.prems have lt: "i < length A" unfolding len by auto
  obtain i' st' where step: "scan_step (A ! i) i (length A) st = (i', st')"
    by (cases "scan_step (A ! i) i (length A) st")
  show ?case
  proof (cases "requireSlashQuote st'")
    case True
    with lt step show ?thesis by (simp add: scan_loop_step)
  next
    case False
    have next_inv: "i' + 1 \<le> length P \<or> (\<exists>j\<le>k. i' + 1 = length P + 2 * j)"
    proof (cases "i < length P")
      case True
      then have at: "A ! i = P ! i" by (simp add: A_def nth_append)
      from scan_step_cases [OF step] show ?thesis
      proof
        assume "i' = i"
        with True show ?thesis by simp
      next
        assume bs: "A ! i = [0x5C] \<and> i' = i + 1"
        from True have "P \<noteq> []" by auto
        with last have "last P \<noteq> [0x5C]" by simp
        with \<open>P \<noteq> []\<close> have "P ! (length P - 1) \<noteq> [0x5C]" by (simp add: last_conv_nth)
        with bs at have "i \<noteq> length P - 1" by auto
        with True have "i + 2 \<le> length P" by arith
        with bs show ?thesis by simp
      qed
    next
      case not_less: False
      with less.prems obtain j where j: "j \<le> k" "i = length P + 2 * j" by auto
      have "A ! i = replicate (2 * k + 1) [0x5C] ! (2 * j)"
        using j unfolding A_def by (simp only: nth_append_length_plus)
      also have "\<dots> = [0x5C]"
        using j by (intro nth_replicate) simp
      finally have at: "A ! i = [0x5C]" .
      show ?thesis
      proof (cases "j = k")
        case True
        with j have "i + 1 = length A" by (simp add: len)
        with step at have "requireSlashQuote st'" by (auto simp: scan_step_backslash)
        with False show ?thesis by simp
      next
        case neq: False
        with j have "i + 1 \<noteq> length A" by (simp add: len)
        with step at have "i' = i + 1" by (auto simp: scan_step_backslash)
        with j neq have "Suc j \<le> k \<and> i' + 1 = length P + 2 * Suc j" by simp
        then show ?thesis by blast
      qed
    qed
    from scan_step_index [OF step] lt have "length A - (i' + 1) < length A - i" by simp
    from less.hyps [OF this next_inv]
    obtain st'' where "scan_loop A (i' + 1) st' = Inr st'' \<and> requireSlashQuote st''" by blast
    with lt step False show ?thesis by (simp add: scan_loop_step)
  qed
qed

text \<open>The loop follows the walk of \<open>unbalanced\<close> for as long as it runs.\<close>

lemma scan_step_unbalanced:
  assumes "scan_step c i n st = (i', st')" and "\<not> requireSlashQuote st'"
    and "unbalanced (c # cs) (braceCount st)" and "i + 1 = n \<longleftrightarrow> cs = []"
  shows "unbalanced (drop (i' - i) cs) (braceCount st')"
  using assms
  by (cases "cs = []") (auto simp: scan_step_def isUnprintableAscii_def split: if_splits)

lemma scan_loop_unbalanced:
  assumes "unbalanced (drop i asArray) (braceCount st)"
  shows "\<exists>st'. scan_loop asArray i st = Inr st' \<and> (requireSlashQuote st' \<or> braceCount st' \<noteq> 0)"
  using assms
proof (induction "length asArray - i" arbitrary: i st rule: less_induct)
  case less
  show ?case
  proof (cases "i < length asArray")
    case False
    with less.prems show ?thesis by (simp add: scan_loop_end)
  next
    case True
    then have split: "drop i asArray = asArray ! i # drop (Suc i) asArray"
      by (simp add: Cons_nth_drop_Suc)
    obtain i' st' where step: "scan_step (asArray ! i) i (length asArray) st = (i', st')"
      by (cases "scan_step (asArray ! i) i (length asArray) st")
    show ?thesis
    proof (cases "requireSlashQuote st'")
      case True
      with \<open>i < length asArray\<close> step show ?thesis by (simp add: scan_loop_step)
    next
      case False
      have "i + 1 = length asArray \<longleftrightarrow> drop (Suc i) asArray = []"
        using True by auto
      with step False less.prems
      have "unbalanced (drop (i' - i) (drop (Suc i) asArray)) (braceCount st')"
        unfolding split by (rule scan_step_unbalanced)
      moreover from scan_step_index [OF step] have "i' - i + Suc i = i' + 1" by simp
      ultimately have unb: "unbalanced (drop (i' + 1) asArray) (braceCount st')"
        by (simp only: drop_drop)
      from scan_step_index [OF step] True
      have "length asArray - (i' + 1) < length asArray - i" by simp
      from less.hyps [OF this unb] True step False show ?thesis
        by (simp add: scan_loop_step)
    qed
  qed
qed

section \<open>The backslash-escaping pass\<close>

lemma slash_loop_concat: "slash_loop cs result = result @ concat (map slash_char cs)"
  by (induction cs arbitrary: result) simp_all

lemma slash_char_nonempty: "c \<noteq> [] \<Longrightarrow> slash_char c \<noteq> []"
  by (simp add: slash_char_def)

lemma slash_char_hd: "c \<noteq> [] \<Longrightarrow> hd (slash_char c) = 0x5C \<or> (slash_char c = c \<and> c \<noteq> [0x7B])"
  by (simp add: slash_char_def)

lemma Array_from_nonempty_elems: "c \<in> set (Array_from s) \<Longrightarrow> c \<noteq> []"
  by (auto dest: Array_from_elem)

lemma Array_from_length_elems: "c \<in> set (Array_from s) \<Longrightarrow> length c \<le> 2"
  by (auto dest: Array_from_elem)

lemma concat_Array_from: "concat (Array_from s) = s"
  by (induction s rule: Array_from.induct) simp_all

lemma slash_quote_nonempty: "s \<noteq> [] \<Longrightarrow> slash_quote s \<noteq> []"
proof -
  assume "s \<noteq> []"
  then obtain c cs where arr: "Array_from s = c # cs"
    by (cases "Array_from s") (simp_all add: Array_from_Nil_iff)
  then have "c \<in> set (Array_from s)" by simp
  then have "slash_char c \<noteq> []" by (intro slash_char_nonempty Array_from_nonempty_elems)
  then show ?thesis by (simp add: slash_quote_def slash_loop_concat arr)
qed

lemma slash_quote_not_brace: "s \<noteq> [] \<Longrightarrow> slash_quote s \<noteq> brace_quote s"
proof -
  assume "s \<noteq> []"
  then obtain c cs where arr: "Array_from s = c # cs"
    by (cases "Array_from s") (simp_all add: Array_from_Nil_iff)
  then have mem: "c \<in> set (Array_from s)" by simp
  then have ne: "c \<noteq> []" by (rule Array_from_nonempty_elems)
  then have ne': "slash_char c \<noteq> []" by (rule slash_char_nonempty)
  have "hd c \<noteq> 0x7B \<or> c = [0x7B]"
    using Array_from_elem [OF mem] by (auto simp: is_high_surrogate_def)
  with slash_char_hd [OF ne] ne have "hd (slash_char c) \<noteq> 0x7B"
    by auto
  with ne' have "hd (slash_quote s) \<noteq> 0x7B"
    by (simp add: slash_quote_def slash_loop_concat arr)
  then show ?thesis by (auto simp: brace_quote_def)
qed

lemma slash_char_length: "length c \<le> 2 \<Longrightarrow> length c \<le> length (slash_char c)"
  by (auto simp: slash_char_def isUnprintableAscii_def padStart_def split: option.splits)

lemma slash_chars_length:
  "\<forall>c \<in> set cs. length c \<le> 2 \<Longrightarrow> length (concat cs) \<le> length (concat (map slash_char cs))"
proof (induction cs)
  case Nil
  show ?case by simp
next
  case (Cons c cs)
  then have "length c \<le> length (slash_char c)" by (simp add: slash_char_length)
  with Cons show ?case by simp
qed

lemma slash_chars_longer:
  assumes "\<forall>c \<in> set cs. length c \<le> 2" and "[0x20] \<in> set cs"
  shows "length (concat cs) < length (concat (map slash_char cs))"
proof -
  from assms(2) obtain xs ys where cs: "cs = xs @ [0x20] # ys"
    by (auto simp: in_set_conv_decomp)
  have "length (concat xs) \<le> length (concat (map slash_char xs))"
    using assms(1) by (intro slash_chars_length) (simp add: cs)
  moreover have "length (concat ys) \<le> length (concat (map slash_char ys))"
    using assms(1) by (intro slash_chars_length) (simp add: cs)
  moreover have "length (slash_char [0x20]) = 2"
    by (simp add: slash_char_def)
  ultimately show ?thesis by (simp add: cs)
qed

lemma slash_quote_longer: "0x20 \<in> set s \<Longrightarrow> length s < length (slash_quote s)"
proof -
  assume "0x20 \<in> set s"
  then have "[0x20] \<in> set (Array_from s)"
    by (rule Array_from_single) (simp_all add: not_surrogate_ascii)
  with slash_chars_longer [of "Array_from s"] show ?thesis
    by (simp add: slash_quote_def slash_loop_concat concat_Array_from Array_from_length_elems)
qed

lemma scan_step_keeps_brace:
  "scan_step c i n st = (i', st') \<Longrightarrow> requireBraceQuote st \<Longrightarrow> requireBraceQuote st'"
  by (auto simp: scan_step_def split: if_splits)

lemma scan_step_skip_brace:
  "scan_step c i n st = (i', st') \<Longrightarrow> i' \<noteq> i \<Longrightarrow> requireBraceQuote st'"
  by (auto simp: scan_step_def split: if_splits)

lemma scan_loop_space:
  assumes "[0x20] \<in> set (drop i asArray) \<or> requireBraceQuote st"
  shows "\<exists>st'. scan_loop asArray i st = Inr st' \<and> (requireSlashQuote st' \<or> requireBraceQuote st')"
  using assms
proof (induction "length asArray - i" arbitrary: i st rule: less_induct)
  case less
  show ?case
  proof (cases "i < length asArray")
    case False
    with less.prems show ?thesis by (simp add: scan_loop_end)
  next
    case True
    then have split: "drop i asArray = asArray ! i # drop (Suc i) asArray"
      by (simp add: Cons_nth_drop_Suc)
    obtain i' st' where step: "scan_step (asArray ! i) i (length asArray) st = (i', st')"
      by (cases "scan_step (asArray ! i) i (length asArray) st")
    show ?thesis
    proof (cases "requireSlashQuote st'")
      case True
      with \<open>i < length asArray\<close> step show ?thesis by (simp add: scan_loop_step)
    next
      case False
      have inv: "[0x20] \<in> set (drop (i' + 1) asArray) \<or> requireBraceQuote st'"
      proof (cases "requireBraceQuote st'")
        case True
        then show ?thesis by simp
      next
        case no_brace: False
        with step have "\<not> requireBraceQuote st" "i' = i"
          by (auto dest: scan_step_keeps_brace scan_step_skip_brace)
        moreover from step no_brace have "asArray ! i \<noteq> [0x20]"
          by (auto simp: scan_step_space)
        ultimately show ?thesis using less.prems split by auto
      qed
      from scan_step_index [OF step] True
      have "length asArray - (i' + 1) < length asArray - i" by simp
      from less.hyps [OF this inv] True step False show ?thesis
        by (simp add: scan_loop_step)
    qed
  qed
qed

lemma tclQuote_space_changes: "0x20 \<in> set s \<Longrightarrow> tclQuote s \<noteq> Inr s"
proof -
  assume sp: "0x20 \<in> set s"
  then have ne: "s \<noteq> []" by auto
  from sp have "[0x20] \<in> set (Array_from s)"
    by (rule Array_from_single) (simp_all add: not_surrogate_ascii)
  with scan_loop_space [of 0 "Array_from s" scan_init]
  obtain st' where "scan_loop (Array_from s) 0 scan_init = Inr st'"
    "requireSlashQuote st' \<or> requireBraceQuote st'" by auto
  with ne slash_quote_longer [OF sp] show ?thesis
    by (auto simp: tclQuote_def brace_quote_def Let_def)
qed

lemma tclQuote_nonempty: "\<exists>r. tclQuote s = Inr r \<and> r \<noteq> []"
proof (cases "s = []")
  case True
  then show ?thesis by (simp add: tclQuote_def)
next
  case False
  obtain st' where "scan_loop (Array_from s) 0 scan_init = Inr st'"
    using scan_loop_total by blast
  with False slash_quote_nonempty [OF False] show ?thesis
    by (simp add: tclQuote_def brace_quote_def Let_def)
qed

text \<open>Plain content needs no quoting.\<close>

lemma tclQuote_plain:
  assumes "s \<noteq> []" and "\<forall>u \<in> set s. plain_unit u"
  shows "tclQuote s = Inr s"
proof -
  have all: "\<forall>c \<in> set (drop 0 (Array_from s)). plain_char c \<or> c = [0x20]"
    using Array_from_plain [of s] assms(2) by simp
  have "[0x20] \<notin> set (Array_from s)"
  proof
    assume "[0x20] \<in> set (Array_from s)"
    from Array_from_elem [OF this] have "0x20 \<in> set s" by auto
    with assms(2) show False by (auto simp: plain_unit_def)
  qed
  then have "scan_loop (Array_from s) 0 scan_init = Inr scan_init"
    using scan_loop_plain_space [OF all, of scan_init] by (simp add: scan_init_def)
  with assms(1) show ?thesis
    by (simp add: tclQuote_def scan_init_def)
qed

lemma surrogate_plain: "is_surrogate u \<Longrightarrow> plain_unit u"
  by (auto simp: is_surrogate_def is_high_surrogate_def is_low_surrogate_def plain_unit_def
      control_unit_def word_le_nat_alt word_less_nat_alt)

lemma slash_char_plain: "plain_unit u \<Longrightarrow> slash_char [u] = [u]"
  by (auto simp: slash_char_def plain_unit_def control_unit_def isUnprintableAscii_def)

section \<open>The loop of the list encoder\<close>

lemma nat_toString_nonempty: "nat_toString n \<noteq> []"
  by (subst nat_toString.simps) simp

lemma int_toString_nonempty: "int_toString n \<noteq> []"
  by (simp add: int_toString_def nat_toString_nonempty)

lemma append_elements_join:
  "result \<noteq> [] \<Longrightarrow> append_elements result elements = join_with (js '' '') (result # elements)"
proof (induction elements arbitrary: result)
  case Nil
  show ?case by simp
next
  case (Cons element rest)
  have "append_elements result (element # rest) = append_elements (result @ js '' '' @ element) rest"
    using Cons.prems by simp
  also have "\<dots> = join_with (js '' '') ((result @ js '' '' @ element) # rest)"
    by (rule Cons.IH) simp
  also have "\<dots> = join_with (js '' '') (result # element # rest)"
    by (cases rest) simp_all
  finally show ?case .
qed

lemma append_elements_join_empty:
  assumes "[] \<notin> set elements"
  shows "append_elements [] elements = join_with (js '' '') elements"
proof (cases elements)
  case Nil
  then show ?thesis by simp
next
  case (Cons element rest)
  with assms have "element \<noteq> []" by auto
  then show ?thesis by (simp add: Cons append_elements_join)
qed

lemma append_elements_join_any:
  "[] \<notin> set elements \<Longrightarrow>
   append_elements result elements =
     join_with (js '' '') ((if result = [] then [] else [result]) @ elements)"
  by (simp add: append_elements_join append_elements_join_empty)

lemma elements_unique:
  "list_all2 (\<lambda>item element. f item = Inr element) list elements \<Longrightarrow>
   list_all2 (\<lambda>item element. f item = Inr element) list others \<Longrightarrow> elements = others"
  by (induction list arbitrary: elements others) (auto simp: list_all2_Cons1)

lemma encode_total:
  fixes toString :: "'n \<Rightarrow> jsstring"
  shows "\<forall>n. toString n \<noteq> [] \<Longrightarrow>
         \<exists>element. encodeTclListElement toString item = Inr element \<and> element \<noteq> []"
    and "\<forall>n. toString n \<noteq> [] \<Longrightarrow>
         \<exists>elements. list_all2 (\<lambda>item element. encodeTclListElement toString item = Inr element) list elements
           \<and> [] \<notin> set elements
           \<and> tclList_loop toString list result = Inr (append_elements result elements)"
proof (induction toString item and toString list result rule: encodeTclListElement_tclList_loop.induct)
  case (1 toString s)
  show ?case using tclQuote_nonempty [of s] by simp
next
  case (2 toString n)
  then show ?case by simp
next
  case (3 toString b)
  show ?case by simp
next
  case (4 toString xs)
  then obtain elements where "tclList_loop toString xs [] = Inr (append_elements [] elements)"
    by blast
  then show ?case using tclQuote_nonempty [of "append_elements [] elements"] by simp
next
  case (5 toString result)
  show ?case by simp
next
  case (6 toString item rest result)
  let ?result = "if result \<noteq> [] then result @ js '' '' else result"
  from 6(1) [OF refl 6(3)] obtain element
    where el: "encodeTclListElement toString item = Inr element" "element \<noteq> []"
    by blast
  from 6(2) [OF refl el(1) 6(3)] obtain elements where
    els: "list_all2 (\<lambda>item element. encodeTclListElement toString item = Inr element) rest elements"
      "[] \<notin> set elements"
      "tclList_loop toString rest (?result @ element) = Inr (append_elements (?result @ element) elements)"
    by blast
  have "list_all2 (\<lambda>item element. encodeTclListElement toString item = Inr element)
          (item # rest) (element # elements)"
    using el els by simp
  moreover have "[] \<notin> set (element # elements)"
    using el els by simp
  moreover have "tclList_loop toString (item # rest) result
                   = Inr (append_elements result (element # elements))"
    using el els by (simp add: Let_def)
  ultimately show ?case by blast
qed

section \<open>Strings that the element quoter changes\<close>

lemma nonplain_ascii: "\<not> plain_unit u \<Longrightarrow> u < 0x80"
  by (auto simp: plain_unit_def control_unit_def word_less_nat_alt)

lemma scan_step_nonplain:
  "\<not> plain_unit u \<Longrightarrow> scan_step [u] i n st = (i', st') \<Longrightarrow>
   requireSlashQuote st' \<or> requireBraceQuote st'"
  by (auto simp: scan_step_def plain_unit_def control_unit_def isUnprintableAscii_def
      split: if_splits)

lemma scan_loop_nonplain:
  assumes "(\<exists>u. \<not> plain_unit u \<and> [u] \<in> set (drop i asArray)) \<or> requireBraceQuote st"
  shows "\<exists>st'. scan_loop asArray i st = Inr st' \<and> (requireSlashQuote st' \<or> requireBraceQuote st')"
  using assms
proof (induction "length asArray - i" arbitrary: i st rule: less_induct)
  case less
  show ?case
  proof (cases "i < length asArray")
    case False
    with less.prems show ?thesis by (simp add: scan_loop_end)
  next
    case True
    then have split: "drop i asArray = asArray ! i # drop (Suc i) asArray"
      by (simp add: Cons_nth_drop_Suc)
    obtain i' st' where step: "scan_step (asArray ! i) i (length asArray) st = (i', st')"
      by (cases "scan_step (asArray ! i) i (length asArray) st")
    show ?thesis
    proof (cases "requireSlashQuote st'")
      case True
      with \<open>i < length asArray\<close> step show ?thesis by (simp add: scan_loop_step)
    next
      case False
      have inv: "(\<exists>u. \<not> plain_unit u \<and> [u] \<in> set (drop (i' + 1) asArray)) \<or> requireBraceQuote st'"
      proof (cases "requireBraceQuote st'")
        case True
        then show ?thesis by simp
      next
        case no_brace: False
        with step have before: "\<not> requireBraceQuote st" "i' = i"
          by (auto dest: scan_step_keeps_brace scan_step_skip_brace)
        with less.prems obtain u where u: "\<not> plain_unit u" "[u] \<in> set (drop i asArray)"
          by blast
        have "asArray ! i \<noteq> [u]"
        proof
          assume "asArray ! i = [u]"
          with step u(1) have "requireSlashQuote st' \<or> requireBraceQuote st'"
            by (auto dest: scan_step_nonplain)
          with False no_brace show False by simp
        qed
        with u(2) split have "[u] \<in> set (drop (Suc i) asArray)" by simp
        with u(1) before(2) show ?thesis by auto
      qed
      from scan_step_index [OF step] True
      have "length asArray - (i' + 1) < length asArray - i" by simp
      from less.hyps [OF this inv] True step False show ?thesis
        by (simp add: scan_loop_step)
    qed
  qed
qed

lemma slash_char_nonplain_length: "\<not> plain_unit u \<Longrightarrow> 2 \<le> length (slash_char [u])"
  by (auto simp: slash_char_def plain_unit_def control_unit_def isUnprintableAscii_def)

lemma slash_chars_longer_nonplain:
  assumes "\<forall>c \<in> set cs. length c \<le> 2" and "[u] \<in> set cs" and "\<not> plain_unit u"
  shows "length (concat cs) < length (concat (map slash_char cs))"
proof -
  from assms(2) obtain xs ys where cs: "cs = xs @ [u] # ys"
    by (auto simp: in_set_conv_decomp)
  have "length (concat xs) \<le> length (concat (map slash_char xs))"
    using assms(1) by (intro slash_chars_length) (simp add: cs)
  moreover have "length (concat ys) \<le> length (concat (map slash_char ys))"
    using assms(1) by (intro slash_chars_length) (simp add: cs)
  moreover have "2 \<le> length (slash_char [u])"
    using assms(3) by (rule slash_char_nonplain_length)
  ultimately show ?thesis by (simp add: cs)
qed

lemma tclQuote_nonplain_changes:
  assumes "u \<in> set s" and "\<not> plain_unit u"
  shows "tclQuote s \<noteq> Inr s"
proof -
  from assms(1) have ne: "s \<noteq> []" by auto
  from assms(2) have "u < 0x80" by (rule nonplain_ascii)
  with assms(1) have mem: "[u] \<in> set (Array_from s)"
    by (intro Array_from_single) (simp_all add: not_surrogate_ascii)
  with slash_chars_longer_nonplain [of "Array_from s" u] assms(2)
  have longer: "length s < length (slash_quote s)"
    by (simp add: slash_quote_def slash_loop_concat concat_Array_from Array_from_length_elems)
  from mem assms(2) scan_loop_nonplain [of 0 "Array_from s" scan_init]
  obtain st' where "scan_loop (Array_from s) 0 scan_init = Inr st'"
    "requireSlashQuote st' \<or> requireBraceQuote st'" by auto
  with ne longer show ?thesis
    by (auto simp: tclQuote_def brace_quote_def Let_def)
qed

lemma tclQuote_unchanged_iff: "tclQuote s = Inr s \<longleftrightarrow> s \<noteq> [] \<and> list_all plain_unit s"
proof
  assume same: "tclQuote s = Inr s"
  have "s \<noteq> []"
    using same by (auto simp: tclQuote_def)
  moreover have "list_all plain_unit s"
    unfolding list_all_iff
  proof
    fix u assume "u \<in> set s"
    with same show "plain_unit u"
      using tclQuote_nonplain_changes [of u s] by blast
  qed
  ultimately show "s \<noteq> [] \<and> list_all plain_unit s" ..
next
  assume "s \<noteq> [] \<and> list_all plain_unit s"
  then show "tclQuote s = Inr s"
    by (intro tclQuote_plain) (simp_all add: list_all_iff)
qed

lemma tclQuote_forms:
  "\<exists>r. tclQuote s = Inr r \<and> (r = s \<or> r = brace_quote s \<or> r = slash_quote s)"
proof (cases "s = []")
  case True
  then show ?thesis by (simp add: tclQuote_def brace_quote_def)
next
  case False
  obtain st' where "scan_loop (Array_from s) 0 scan_init = Inr st'"
    using scan_loop_total by blast
  with False show ?thesis
    by (simp add: tclQuote_def Let_def)
qed

lemma encode_returns:
  fixes toString :: "'n \<Rightarrow> jsstring"
  shows "\<exists>element. encodeTclListElement toString item = Inr element"
    and "\<exists>inner. tclList_loop toString list result = Inr inner"
proof (induction toString item and toString list result rule: encodeTclListElement_tclList_loop.induct)
  case (1 toString s)
  show ?case using tclQuote_nonempty [of s] by auto
next
  case (2 toString n)
  show ?case by simp
next
  case (3 toString b)
  show ?case by simp
next
  case (4 toString xs)
  then obtain inner where "tclList_loop toString xs [] = Inr inner" by blast
  then show ?case using tclQuote_nonempty [of inner] by auto
next
  case (5 toString result)
  show ?case by simp
next
  case (6 toString item rest result)
  from 6(1) [OF refl] obtain element where el: "encodeTclListElement toString item = Inr element"
    by blast
  from 6(2) [OF refl el] el show ?case
    by (simp add: Let_def)
qed

section \<open>The empty string\<close>

text \<open>
  C7: the element quoter applied to the empty string returns exactly the
  two-character string of an open and a close brace.
\<close>

theorem tclQuote_empty: "tclQuote [] = Inr (js ''{}'')"
  by (simp add: tclQuote_def)

section \<open>Strings returned unchanged\<close>

text \<open>
  C1, as the specification states it, fails: a string of balanced braces free of
  control characters, space, double quote and backslash is not returned unchanged.
  The string of an open and a close brace comes back wrapped in a further pair of
  braces, and the empty string comes back as a pair of braces.
\<close>

theorem tclQuote_balanced_braces_counterexample:
  "\<not> unbalanced (Array_from (js ''{}'')) 0
   \<and> list_all brace_or_plain_unit (js ''{}'')
   \<and> tclQuote (js ''{}'') = Inr (js ''{{}}'')
   \<and> tclQuote (js ''{}'') \<noteq> Inr (js ''{}'')
   \<and> tclQuote [] \<noteq> Inr []"
  by code_simp

text \<open>
  C1, amended: every non-empty string free of control characters, space, double
  quote, backslash and braces is returned unchanged.
\<close>

theorem tclQuote_plain_unchanged:
  assumes "s \<noteq> []" and "\<forall>u \<in> set s. plain_unit u"
  shows "tclQuote s = Inr s"
  using assms by (rule tclQuote_plain)

theorem tclQuote_plain_unchanged_witness:
  "js ''simple_value'' \<noteq> [] \<and> list_all plain_unit (js ''simple_value'')
   \<and> tclQuote (js ''simple_value'') = Inr (js ''simple_value'')"
proof -
  have plain: "list_all plain_unit (js ''simple_value'')"
    by (simp add: plain_unit_def control_unit_def)
  then have "\<forall>u \<in> set (js ''simple_value''). plain_unit u"
    by (simp only: list_all_iff)
  with plain show ?thesis
    using tclQuote_plain_unchanged [of "js ''simple_value''"] by simp
qed

section \<open>Strings wrapped in braces\<close>

text \<open>
  C6: every string that contains at least one space and otherwise only plain content
  (no control character, double quote, backslash or brace) is returned wrapped in
  one pair of braces, with no change to any character.
\<close>

theorem tclQuote_space_plain:
  assumes "0x20 \<in> set s" and "\<forall>u \<in> set s. u \<noteq> 0x20 \<longrightarrow> plain_unit u"
  shows "tclQuote s = Inr (js ''{'' @ s @ js ''}'')"
proof -
  from assms(1) have ne: "s \<noteq> []" by auto
  have sp: "[0x20] \<in> set (Array_from s)"
    using assms(1) by (rule Array_from_single) (simp_all add: not_surrogate_ascii)
  have "scan_loop (Array_from s) 0 scan_init = Inr (scan_init\<lparr>requireBraceQuote := True\<rparr>)"
    using scan_loop_plain_space [of 0 "Array_from s" scan_init] Array_from_plain [OF assms(2)] sp
    by (simp add: scan_init_def)
  with ne show ?thesis
    by (simp add: tclQuote_def scan_init_def brace_quote_def)
qed

theorem tclQuote_space_plain_witness:
  "0x20 \<in> set (js ''a b c'') \<and> list_all (\<lambda>u. u = 0x20 \<or> plain_unit u) (js ''a b c'')
   \<and> tclQuote (js ''a b c'') = Inr (js ''{a b c}'')"
proof -
  have "\<forall>u \<in> set (js ''a b c''). u \<noteq> 0x20 \<longrightarrow> plain_unit u"
    by (simp add: plain_unit_def control_unit_def)
  moreover have "0x20 \<in> set (js ''a b c'')"
    by simp
  ultimately show ?thesis
    using tclQuote_space_plain [of "js ''a b c''"]
    by (simp add: plain_unit_def control_unit_def)
qed

section \<open>Strings escaped with backslashes\<close>

text \<open>
  C3: quoting the string of the 128 ASCII codes 0 to 127 gives the fixed reference
  string of the self-test, and that reference string is the escape table applied to
  the codes in order: named escapes and \<open>\xHH\<close> for the control characters, one
  backslash before space, double quote, backslash and braces, everything else as it is.
\<close>

theorem tclQuote_all_ascii:
  "tclQuote all_ascii = Inr all_ascii_expected
   \<and> all_ascii_expected = js (concat (map reference_escape [0..<128]))"
  by code_simp

text \<open>
  C4, as the specification states it, fails: a string whose last code point is a
  backslash is not always escaped with backslashes. In the string of two backslashes
  the first protects the second, and the string comes back wrapped in braces.
\<close>

theorem tclQuote_backslash_pair_counterexample:
  "last (Array_from (js [BSL, BSL])) = js [BSL]
   \<and> tclQuote (js [BSL, BSL]) = Inr (js [CHR ''{'', BSL, BSL, CHR ''}''])
   \<and> tclQuote (js [BSL, BSL]) = Inr (brace_quote (js [BSL, BSL]))
   \<and> tclQuote (js [BSL, BSL]) \<noteq> Inr (slash_quote (js [BSL, BSL]))"
  by code_simp

text \<open>
  C4, amended: every string that ends in an odd number of backslashes (so that no
  backslash before it protects the last one) is escaped with backslashes and never
  wrapped in braces; in particular the string a, space, b, c, backslash comes back
  as a, backslash, space, b, c, backslash, backslash.
\<close>

theorem tclQuote_open_backslash:
  "(p = [] \<or> last p \<noteq> 0x5C \<longrightarrow>
      tclQuote (p @ replicate (2 * k + 1) 0x5C) = Inr (slash_quote (p @ replicate (2 * k + 1) 0x5C))
      \<and> tclQuote (p @ replicate (2 * k + 1) 0x5C) \<noteq> Inr (brace_quote (p @ replicate (2 * k + 1) 0x5C)))
   \<and> tclQuote (js (''a bc'' @ [BSL])) = Inr (js (''a'' @ [BSL] @ '' bc'' @ [BSL, BSL]))"
proof (rule conjI, rule impI)
  assume open_run: "p = [] \<or> last p \<noteq> 0x5C"
  let ?s = "p @ replicate (2 * k + 1) 0x5C"
  have "Array_from ?s = Array_from p @ Array_from (replicate (2 * k + 1) 0x5C)"
    by (rule Array_from_append) (simp add: not_surrogate_ascii)
  also have "Array_from (replicate (2 * k + 1) 0x5C) = replicate (2 * k + 1) [0x5C]"
    by (subst Array_from_no_high) (simp_all add: not_surrogate_ascii)
  finally have arr: "Array_from ?s = Array_from p @ replicate (2 * k + 1) [0x5C]" .
  have "Array_from p = [] \<or> last (Array_from p) \<noteq> [0x5C]"
  proof (cases "p = []")
    case True
    then show ?thesis by simp
  next
    case False
    with open_run have "last p \<noteq> 0x5C" by simp
    with Array_from_last [OF False] show ?thesis by auto
  qed
  from scan_loop_odd_tail [OF this, of 0 k scan_init]
  obtain st' where "scan_loop (Array_from ?s) 0 scan_init = Inr st'" "requireSlashQuote st'"
    unfolding arr by auto
  then have "tclQuote ?s = Inr (slash_quote ?s)"
    by (simp add: tclQuote_def)
  moreover have "slash_quote ?s \<noteq> brace_quote ?s"
    by (rule slash_quote_not_brace) simp
  ultimately show "tclQuote ?s = Inr (slash_quote ?s) \<and> tclQuote ?s \<noteq> Inr (brace_quote ?s)"
    by simp
next
  show "tclQuote (js (''a bc'' @ [BSL])) = Inr (js (''a'' @ [BSL] @ '' bc'' @ [BSL, BSL]))"
    by code_simp
qed

theorem tclQuote_open_backslash_witness:
  "last (js ''a bc'') \<noteq> 0x5C
   \<and> js ''a bc'' @ replicate (2 * 0 + 1) 0x5C = js (''a bc'' @ [BSL])
   \<and> tclQuote (js (''a bc'' @ [BSL])) = Inr (slash_quote (js (''a bc'' @ [BSL])))
   \<and> tclQuote (js (''a bc'' @ [BSL])) \<noteq> Inr (brace_quote (js (''a bc'' @ [BSL])))"
proof -
  have no_backslash: "last (js ''a bc'') \<noteq> 0x5C"
    by simp
  have whole: "js ''a bc'' @ replicate (2 * 0 + 1) 0x5C = js (''a bc'' @ [BSL])"
    by simp
  from tclQuote_open_backslash [of "js ''a bc''" 0] no_backslash
  have "tclQuote (js ''a bc'' @ replicate (2 * 0 + 1) 0x5C)
          = Inr (slash_quote (js ''a bc'' @ replicate (2 * 0 + 1) 0x5C))
        \<and> tclQuote (js ''a bc'' @ replicate (2 * 0 + 1) 0x5C)
          \<noteq> Inr (brace_quote (js ''a bc'' @ replicate (2 * 0 + 1) 0x5C))"
    by blast
  then have "tclQuote (js (''a bc'' @ [BSL])) = Inr (slash_quote (js (''a bc'' @ [BSL])))
        \<and> tclQuote (js (''a bc'' @ [BSL])) \<noteq> Inr (brace_quote (js (''a bc'' @ [BSL])))"
    unfolding whole .
  with no_backslash whole show ?thesis
    by blast
qed

text \<open>
  C5: every string whose braces, those that no backslash protects, are unbalanced (a
  close brace met at depth zero, or a depth that is not zero at the end) is escaped
  with backslashes; in particular each of the five braces of the string of three
  open and two close braces gets a backslash.
\<close>

theorem tclQuote_unbalanced:
  "(unbalanced (Array_from s) 0 \<longrightarrow> tclQuote s = Inr (slash_quote s))
   \<and> tclQuote (js ''{{{}}'') =
       Inr (js [BSL, CHR ''{'', BSL, CHR ''{'', BSL, CHR ''{'', BSL, CHR ''}'', BSL, CHR ''}''])"
proof (intro conjI impI)
  assume unb: "unbalanced (Array_from s) 0"
  then have "s \<noteq> []" by auto
  moreover from scan_loop_unbalanced [of 0 "Array_from s" scan_init] unb
  obtain st' where "scan_loop (Array_from s) 0 scan_init = Inr st'"
    "requireSlashQuote st' \<or> braceCount st' \<noteq> 0"
    by (auto simp: scan_init_def)
  ultimately show "tclQuote s = Inr (slash_quote s)"
    by (auto simp: tclQuote_def)
next
  show "tclQuote (js ''{{{}}'') =
       Inr (js [BSL, CHR ''{'', BSL, CHR ''{'', BSL, CHR ''{'', BSL, CHR ''}'', BSL, CHR ''}''])"
    by code_simp
qed

theorem tclQuote_unbalanced_witness:
  "unbalanced (Array_from (js ''{{}}}'')) 0
   \<and> tclQuote (js ''{{}}}'') = Inr (slash_quote (js ''{{}}}''))
   \<and> slash_quote (js ''{{}}}'') =
       js [BSL, CHR ''{'', BSL, CHR ''{'', BSL, CHR ''}'', BSL, CHR ''}'', BSL, CHR ''}'']"
proof -
  have unb: "unbalanced (Array_from (js ''{{}}}'')) 0"
    by code_simp
  moreover have "slash_quote (js ''{{}}}'') =
       js [BSL, CHR ''{'', BSL, CHR ''{'', BSL, CHR ''}'', BSL, CHR ''}'', BSL, CHR ''}'']"
    by code_simp
  ultimately show ?thesis
    using tclQuote_unbalanced [of "js ''{{}}}''"] by simp
qed

section \<open>Totality\<close>

text \<open>
  C9: the element quoter returns a string for every sequence of code units, well-formed
  UTF-16 or not, and never throws. A surrogate half that stands alone is passed through:
  it leaves the flags of the classification as they are, the escaping pass emits it
  unchanged, and a non-empty string of surrogate halves only is returned unchanged.
\<close>

theorem tclQuote_total:
  "(\<exists>r. tclQuote s = Inr r)
   \<and> (is_surrogate u \<longrightarrow> scan_step [u] i n st = (i, st) \<and> slash_char [u] = [u])
   \<and> (t \<noteq> [] \<and> list_all is_surrogate t \<longrightarrow> tclQuote t = Inr t)"
proof (intro conjI impI)
  show "\<exists>r. tclQuote s = Inr r"
    using tclQuote_nonempty [of s] by blast
next
  assume "is_surrogate u"
  then have "plain_unit u"
    by (rule surrogate_plain)
  then show "scan_step [u] i n st = (i, st)"
    by (rule scan_step_plain)
next
  assume "is_surrogate u"
  then have "plain_unit u"
    by (rule surrogate_plain)
  then show "slash_char [u] = [u]"
    by (rule slash_char_plain)
next
  assume "t \<noteq> [] \<and> list_all is_surrogate t"
  then have "t \<noteq> []" and "\<forall>u \<in> set t. plain_unit u"
    by (simp_all add: list_all_iff surrogate_plain)
  then show "tclQuote t = Inr t"
    by (rule tclQuote_plain)
qed

theorem tclQuote_total_witness:
  "is_surrogate 0xDC00 \<and> is_surrogate 0xD83D
   \<and> tclQuote [0xDC00, 0xD83D] = Inr [0xDC00, 0xD83D]
   \<and> scan_step [0xDC00] 0 2 scan_init = (0, scan_init)
   \<and> slash_char [0xDC00] = [0xDC00]"
proof -
  have "is_surrogate 0xDC00" and "is_surrogate 0xD83D"
    by (simp_all add: is_surrogate_def is_high_surrogate_def is_low_surrogate_def)
  then show ?thesis
    using tclQuote_total [of "[0xDC00, 0xD83D]" "0xDC00" 0 2 scan_init "[0xDC00, 0xD83D]"]
    by simp
qed

section \<open>Joining the elements\<close>

text \<open>
  C8: for every finite sequence of encodable values, the list encoder returns the
  encodings of the elements joined with one space, with no separator before the first
  or after the last; the empty sequence gives the empty string. An element is encoded
  by the element quoter when it is text, by the conversion of the host when it is a
  number, as 1 or 0 when it is a boolean, and by the element quoter applied to the
  recursive encoding when it is a nested sequence. The conversion of the host never
  returns an empty string.
\<close>

theorem tclList_join:
  assumes "\<forall>n. toString n \<noteq> []"
  shows "(\<exists>elements.
            list_all2 (\<lambda>item element. encodeTclListElement toString item = Inr element) list elements
            \<and> tclList toString list = Inr (join_with (js '' '') elements))
         \<and> tclList toString [] = Inr []
         \<and> encodeTclListElement toString (Str s) = tclQuote s
         \<and> encodeTclListElement toString (Num n) = Inr (toString n)
         \<and> encodeTclListElement toString (Bool True) = Inr (js ''1'')
         \<and> encodeTclListElement toString (Bool False) = Inr (js ''0'')
         \<and> encodeTclListElement toString (Iter nested) =
             (case tclList toString nested of Inl e \<Rightarrow> Inl e | Inr inner \<Rightarrow> tclQuote inner)"
proof -
  from encode_total(2) [OF assms, of list "[]"] obtain elements where
    "list_all2 (\<lambda>item element. encodeTclListElement toString item = Inr element) list elements"
    "[] \<notin> set elements"
    "tclList_loop toString list [] = Inr (append_elements [] elements)"
    by blast
  then have "list_all2 (\<lambda>item element. encodeTclListElement toString item = Inr element) list elements
      \<and> tclList toString list = Inr (join_with (js '' '') elements)"
    by (simp add: tclList_def append_elements_join_empty)
  then show ?thesis
    by (auto simp: tclList_def)
qed

theorem tclList_join_witness:
  "(\<forall>n. int_toString n \<noteq> [])
   \<and> tclList int_toString
        [Iter [], Iter [Num 1, Num 2, Str (js ''three''), Iter [Bool True, Bool False]]]
       = Inr (js ''{} {1 2 three {1 0}}'')
   \<and> (\<exists>elements.
         list_all2 (\<lambda>item element. encodeTclListElement int_toString item = Inr element)
           [Iter [], Iter [Num 1, Num 2, Str (js ''three''), Iter [Bool True, Bool False]]] elements
         \<and> tclList int_toString
             [Iter [], Iter [Num 1, Num 2, Str (js ''three''), Iter [Bool True, Bool False]]]
            = Inr (join_with (js '' '') elements))"
proof -
  have num: "\<forall>n. int_toString n \<noteq> []"
    by (simp add: int_toString_nonempty)
  moreover have "tclList int_toString
        [Iter [], Iter [Num 1, Num 2, Str (js ''three''), Iter [Bool True, Bool False]]]
       = Inr (js ''{} {1 2 three {1 0}}'')"
    by code_simp
  moreover note tclList_join [OF num,
      of "[Iter [], Iter [Num 1, Num 2, Str (js ''three''), Iter [Bool True, Bool False]]]"]
  ultimately show ?thesis
    by blast
qed

text \<open>
  C10: the element string of every encodable value is not empty. So the separator rule
  of the loop, a space before an element only when the accumulated result is not empty,
  is the same as joining the accumulated result, when there is one, and the element
  strings with single spaces, and every element stands in the output.
\<close>

theorem encodeTclListElement_nonempty:
  assumes "\<forall>n. toString n \<noteq> []"
  shows "(\<exists>element. encodeTclListElement toString item = Inr element \<and> element \<noteq> [])
         \<and> (\<exists>elements.
               list_all2 (\<lambda>item element. encodeTclListElement toString item = Inr element) list elements
               \<and> [] \<notin> set elements
               \<and> tclList toString list = Inr (join_with (js '' '') elements)
               \<and> tclList_loop toString list result =
                   Inr (join_with (js '' '') ((if result = [] then [] else [result]) @ elements)))"
proof
  show "\<exists>element. encodeTclListElement toString item = Inr element \<and> element \<noteq> []"
    using assms by (rule encode_total(1))
next
  from encode_total(2) [OF assms, of list result] obtain elements where
    els: "list_all2 (\<lambda>item element. encodeTclListElement toString item = Inr element) list elements"
      "[] \<notin> set elements"
      "tclList_loop toString list result = Inr (append_elements result elements)"
    by blast
  from encode_total(2) [OF assms, of list "[]"] obtain others where
    others: "list_all2 (\<lambda>item element. encodeTclListElement toString item = Inr element) list others"
      "tclList_loop toString list [] = Inr (append_elements [] others)"
    by blast
  from els(1) others(1) have "others = elements"
    by (rule elements_unique [symmetric])
  with others(2) els(2) have "tclList toString list = Inr (join_with (js '' '') elements)"
    by (simp add: tclList_def append_elements_join_empty)
  moreover from els(2) have "append_elements result elements =
      join_with (js '' '') ((if result = [] then [] else [result]) @ elements)"
    by (rule append_elements_join_any)
  ultimately show "\<exists>elements.
      list_all2 (\<lambda>item element. encodeTclListElement toString item = Inr element) list elements
      \<and> [] \<notin> set elements
      \<and> tclList toString list = Inr (join_with (js '' '') elements)
      \<and> tclList_loop toString list result =
          Inr (join_with (js '' '') ((if result = [] then [] else [result]) @ elements))"
    using els by auto
qed

theorem encodeTclListElement_nonempty_witness:
  "(\<forall>n. int_toString n \<noteq> [])
   \<and> encodeTclListElement int_toString (Str []) = Inr (js ''{}'')
   \<and> tclList int_toString [Str [], Num (- 7), Iter []] = Inr (js ''{} -7 {}'')
   \<and> (\<exists>element. encodeTclListElement int_toString (Str []) = Inr element \<and> element \<noteq> [])
   \<and> (\<exists>elements.
         list_all2 (\<lambda>item element. encodeTclListElement int_toString item = Inr element)
           [Str [], Num (- 7), Iter []] elements
         \<and> [] \<notin> set elements
         \<and> tclList int_toString [Str [], Num (- 7), Iter []] = Inr (join_with (js '' '') elements)
         \<and> tclList_loop int_toString [Str [], Num (- 7), Iter []] (js ''x'') =
             Inr (join_with (js '' '') ((if js ''x'' = [] then [] else [js ''x'']) @ elements)))"
proof -
  have num: "\<forall>n. int_toString n \<noteq> []"
    by (simp add: int_toString_nonempty)
  moreover have "encodeTclListElement int_toString (Str []) = Inr (js ''{}'')"
    by code_simp
  moreover have "tclList int_toString [Str [], Num (- 7), Iter []] = Inr (js ''{} -7 {}'')"
    by code_simp
  moreover note encodeTclListElement_nonempty
      [OF num, of "Str []" "[Str [], Num (- 7), Iter []]" "js ''x''"]
  ultimately show ?thesis
    by blast
qed

section \<open>Nested sequences\<close>

text \<open>
  C2, as the specification states it, fails: the element of a nested sequence is not
  always a quoted form of the recursive encoding. For the nested sequence of the one
  value true the recursive encoding is 1, and the element is 1 as well, with no
  quoting.
\<close>

theorem encodeTclListElement_nested_counterexample:
  "tclList int_toString [Bool True] = Inr (js ''1'')
   \<and> encodeTclListElement int_toString (Iter [Bool True]) = Inr (js ''1'')"
  by code_simp

text \<open>
  C2, amended: the element of a nested sequence is the element quoter applied to the
  recursive encoding, which quotes by the content of that encoding alone. The element
  is a quoted form of the encoding, wrapped in one pair of braces or escaped with
  backslashes and different from the encoding, exactly when the encoding is empty or
  holds a control character, space, double quote, backslash or brace; so it is whenever
  the nested sequence is empty or has two or more elements. The element is the encoding
  itself, unquoted, exactly when the encoding is non-empty plain content.
\<close>

theorem encodeTclListElement_nested:
  "(\<exists>inner element.
      tclList toString nested = Inr inner
      \<and> encodeTclListElement toString (Iter nested) = Inr element
      \<and> tclQuote inner = Inr element
      \<and> (element = inner \<longleftrightarrow> inner \<noteq> [] \<and> list_all plain_unit inner)
      \<and> (element = inner \<or> element = brace_quote inner \<or> element = slash_quote inner))
   \<and> ((\<forall>n. toString n \<noteq> []) \<and> length nested \<noteq> 1 \<longrightarrow>
        (\<exists>inner element.
           tclList toString nested = Inr inner
           \<and> encodeTclListElement toString (Iter nested) = Inr element
           \<and> element \<noteq> inner))
   \<and> (encodeTclListElement toString item = Inr single \<and> single \<noteq> [] \<and> list_all plain_unit single \<longrightarrow>
        tclList toString [item] = Inr single
        \<and> encodeTclListElement toString (Iter [item]) = Inr single)"
proof (intro conjI impI)
  obtain inner where inner: "tclList_loop toString nested [] = Inr inner"
    using encode_returns(2) by blast
  obtain element where element: "tclQuote inner = Inr element"
    "element = inner \<or> element = brace_quote inner \<or> element = slash_quote inner"
    using tclQuote_forms [of inner] by blast
  have "element = inner \<longleftrightarrow> inner \<noteq> [] \<and> list_all plain_unit inner"
    using tclQuote_unchanged_iff [of inner] element(1) by simp
  with inner element show "\<exists>inner element.
      tclList toString nested = Inr inner
      \<and> encodeTclListElement toString (Iter nested) = Inr element
      \<and> tclQuote inner = Inr element
      \<and> (element = inner \<longleftrightarrow> inner \<noteq> [] \<and> list_all plain_unit inner)
      \<and> (element = inner \<or> element = brace_quote inner \<or> element = slash_quote inner)"
    by (simp add: tclList_def)
next
  assume hyp: "(\<forall>n. toString n \<noteq> []) \<and> length nested \<noteq> 1"
  then have num: "\<forall>n. toString n \<noteq> []" and len: "length nested \<noteq> 1"
    by simp_all
  from encode_total(2) [OF num, of nested "[]"] obtain elements where
    els: "list_all2 (\<lambda>item element. encodeTclListElement toString item = Inr element) nested elements"
      "[] \<notin> set elements"
      "tclList_loop toString nested [] = Inr (append_elements [] elements)"
    by blast
  let ?inner = "join_with (js '' '') elements"
  from els have inner: "tclList toString nested = Inr ?inner"
    by (simp add: tclList_def append_elements_join_empty)
  obtain element where element: "tclQuote ?inner = Inr element"
    using tclQuote_nonempty [of ?inner] by blast
  from els(1) len have "length elements \<noteq> 1"
    by (auto dest: list_all2_lengthD)
  then have "tclQuote ?inner \<noteq> Inr ?inner"
  proof (cases elements)
    case Nil
    then show ?thesis by (simp add: tclQuote_def)
  next
    case (Cons first rest)
    with \<open>length elements \<noteq> 1\<close> obtain second others where "rest = second # others"
      by (cases rest) simp_all
    with Cons have "0x20 \<in> set ?inner" by simp
    then show ?thesis by (rule tclQuote_space_changes)
  qed
  with inner element show "\<exists>inner element.
           tclList toString nested = Inr inner
           \<and> encodeTclListElement toString (Iter nested) = Inr element
           \<and> element \<noteq> inner"
    by (auto simp: tclList_def)
next
  assume "encodeTclListElement toString item = Inr single \<and> single \<noteq> [] \<and> list_all plain_unit single"
  then show "tclList toString [item] = Inr single"
    by (simp add: tclList_def)
next
  assume single: "encodeTclListElement toString item = Inr single \<and> single \<noteq> [] \<and> list_all plain_unit single"
  then have "tclQuote single = Inr single"
    by (intro tclQuote_plain) (simp_all add: list_all_iff)
  with single show "encodeTclListElement toString (Iter [item]) = Inr single"
    by simp
qed

theorem encodeTclListElement_nested_witness:
  "(\<forall>n. int_toString n \<noteq> []) \<and> length [Bool True, Bool False :: int TclListable] \<noteq> 1
   \<and> tclList int_toString [Bool True, Bool False] = Inr (js ''1 0'')
   \<and> encodeTclListElement int_toString (Iter [Bool True, Bool False]) = Inr (js ''{1 0}'')
   \<and> (\<exists>inner element.
         tclList int_toString [Bool True, Bool False] = Inr inner
         \<and> encodeTclListElement int_toString (Iter [Bool True, Bool False]) = Inr element
         \<and> element \<noteq> inner)
   \<and> encodeTclListElement int_toString (Num 12) = Inr (js ''12'')
   \<and> js ''12'' \<noteq> [] \<and> list_all plain_unit (js ''12'')
   \<and> tclList int_toString [Num 12] = Inr (js ''12'')
   \<and> encodeTclListElement int_toString (Iter [Num 12]) = Inr (js ''12'')
   \<and> tclList int_toString [Str (js ''a b'')] = Inr (js ''{a b}'')
   \<and> encodeTclListElement int_toString (Iter [Str (js ''a b'')]) = Inr (js ''{{a b}}'')
   \<and> (\<exists>inner element.
         tclList int_toString [Str (js ''a b'')] = Inr inner
         \<and> encodeTclListElement int_toString (Iter [Str (js ''a b'')]) = Inr element
         \<and> tclQuote inner = Inr element
         \<and> (element = inner \<longleftrightarrow> inner \<noteq> [] \<and> list_all plain_unit inner)
         \<and> (element = inner \<or> element = brace_quote inner \<or> element = slash_quote inner))"
proof -
  have num: "\<forall>n. int_toString n \<noteq> []"
    by (simp add: int_toString_nonempty)
  moreover have "tclList int_toString [Bool True, Bool False] = Inr (js ''1 0'')"
    by code_simp
  moreover have "encodeTclListElement int_toString (Iter [Bool True, Bool False]) = Inr (js ''{1 0}'')"
    by code_simp
  moreover have "length [Bool True, Bool False :: int TclListable] \<noteq> 1"
    by simp
  moreover have "encodeTclListElement int_toString (Num 12) = Inr (js ''12'')"
    by code_simp
  moreover have "js ''12'' \<noteq> []" and "list_all plain_unit (js ''12'')"
    by (simp_all add: plain_unit_def control_unit_def)
  moreover have "tclList int_toString [Str (js ''a b'')] = Inr (js ''{a b}'')"
    by code_simp
  moreover have "encodeTclListElement int_toString (Iter [Str (js ''a b'')]) = Inr (js ''{{a b}}'')"
    by code_simp
  moreover note encodeTclListElement_nested
      [of int_toString "[Bool True, Bool False]" "Num 12" "js ''12''"]
    encodeTclListElement_nested [of int_toString "[Str (js ''a b'')]"]
  ultimately show ?thesis
    by blast
qed

end
